theory Spec2Isabelle
  imports Main "HOL-Library.Multiset"
begin

section \<open>Strings and the JavaScript built-ins the code calls\<close>

text \<open>
  A JavaScript string is modelled as a \<open>string\<close> (a list of characters). The only
  characters the code inspects are the separators \<open>:\<close> and the newline, and the
  literal \<open>@gmail.com:\<close>.

  \<open>js_split c s\<close> is \<open>s.split(c)\<close> for a one-character separator: the text is cut at
  every occurrence of the separator, the result always has at least one field, and the
  empty string gives one empty field.
\<close>

function js_split :: "char \<Rightarrow> string \<Rightarrow> string list" where
  "js_split c s =
     (case dropWhile (\<lambda>x. x \<noteq> c) s of
        [] \<Rightarrow> [s]
      | _ # rest \<Rightarrow> takeWhile (\<lambda>x. x \<noteq> c) s # js_split c rest)"
  by pat_completeness auto
termination
proof (relation "measure (\<lambda>(c, s). length s)")
  show "wf (measure (\<lambda>(c, s). length s))" by simp
next
  fix c :: char and s :: string and x rest
  assume "dropWhile (\<lambda>x. x \<noteq> c) s = x # rest"
  then have "length (x # rest) \<le> length s"
    using length_dropWhile_le [of "\<lambda>x. x \<noteq> c" s] by simp
  then show "((c, rest), (c, s)) \<in> measure (\<lambda>(c, s). length s)" by simp
qed

declare js_split.simps [simp del]

text \<open>
  Reading an array out of range gives \<open>undefined\<close> in JavaScript; \<open>js_index\<close> returns
  \<open>None\<close> there. \<open>truthy\<close> is the truth value of a value that is a string or
  \<open>undefined\<close>: only a non-empty string is true.
\<close>

definition js_index :: "'a list \<Rightarrow> nat \<Rightarrow> 'a option" where
  "js_index xs i = (if i < length xs then Some (xs ! i) else None)"

fun truthy :: "string option \<Rightarrow> bool" where
  "truthy None = False"
| "truthy (Some s) = (s \<noteq> [])"

text \<open>\<open>js_includes s sub\<close> is \<open>s.includes(sub)\<close>: \<open>sub\<close> occurs in \<open>s\<close> as a substring.\<close>

fun js_includes :: "string \<Rightarrow> string \<Rightarrow> bool" where
  "js_includes [] sub = (sub = [])"
| "js_includes (x # xs) sub = (take (length sub) (x # xs) = sub \<or> js_includes xs sub)"

section \<open>The credential parser (\<open>parseFile\<close>)\<close>

record account =
  email :: string
  password :: string

datatype js_error =
    OpenFailed string
  | WorkerError string
  | WorkerExit int

text \<open>
  The body of the \<open>for await\<close> loop of \<open>parseFile\<close>: the line is split at the colons,
  the first two elements of the array are bound to \<open>email\<close> and \<open>password\<close> (a missing
  element is \<open>undefined\<close>), and a record is pushed when both are truthy.
\<close>

definition parse_line :: "account list \<Rightarrow> string \<Rightarrow> account list" where
  "parse_line accounts line =
     (let fields = js_split CHR '':'' line;
          email = js_index fields 0;
          password = js_index fields 1
      in if truthy email \<and> truthy password
         then accounts @ [\<lparr>email = the email, password = the password\<rparr>]
         else accounts)"

text \<open>
  The loop over the lines that \<open>readline\<close> delivers, starting from the empty array.
\<close>

definition parse_lines :: "string list \<Rightarrow> account list" where
  "parse_lines lines = foldl parse_line [] lines"

text \<open>
  \<open>parseFile\<close> opens the file first. The file system is a map from a path to the lines
  \<open>readline\<close> reads from that file; a path that cannot be opened rejects the promise.
\<close>

definition parseFile :: "(string \<rightharpoonup> string list) \<Rightarrow> string \<Rightarrow> js_error + account list" where
  "parseFile fs filePath =
     (case fs filePath of
        None \<Rightarrow> Inl (OpenFailed filePath)
      | Some lines \<Rightarrow> Inr (parse_lines lines))"

text \<open>
  The two values the destructuring \<open>[email, password] = line.split(":")\<close> binds, as
  functions of the line.
\<close>

definition email_field :: "string \<Rightarrow> string option" where
  "email_field line = js_index (js_split CHR '':'' line) 0"

definition password_field :: "string \<Rightarrow> string option" where
  "password_field line = js_index (js_split CHR '':'' line) 1"

subsection \<open>The parser as the specification words it\<close>

text \<open>
  The specification of the parser, for comparison with \<open>parse_lines\<close>: a line is split on
  the first separator into two fields, the text before it and the whole remainder; a
  line without a separator has no such split. A line whose two fields are not empty
  becomes a record, in the order of the lines; every other line is dropped.
\<close>

definition spec_split_first :: "char \<Rightarrow> string \<Rightarrow> (string \<times> string) option" where
  "spec_split_first c line =
     (if c \<in> set line
      then Some (takeWhile (\<lambda>x. x \<noteq> c) line, tl (dropWhile (\<lambda>x. x \<noteq> c) line))
      else None)"

definition spec_parse :: "string list \<Rightarrow> account list" where
  "spec_parse lines =
     concat (map (\<lambda>line.
       case spec_split_first CHR '':'' line of
         None \<Rightarrow> []
       | Some (identifier, secret) \<Rightarrow>
           if identifier \<noteq> [] \<and> secret \<noteq> []
           then [\<lparr>email = identifier, password = secret\<rparr>] else []) lines)"

section \<open>The verification unit (\<open>testSMTPConnection\<close>, \<open>workerFunction\<close>)\<close>

datatype status = working | dead

record result =
  r_email :: string
  r_status :: status
  r_error :: "string option"

text \<open>
  \<open>transporter.verify()\<close> belongs to nodemailer: it either resolves (the server accepted
  the authentication) or throws an error that carries a message (connection, TLS,
  authentication or timeout failure). Its outcome is a parameter of the model.
\<close>

datatype verify_outcome = Verified | Failed string

text \<open>
  The value of an \<open>async\<close> function is a sum: \<open>Inr\<close> when its promise resolves,
  \<open>Inl\<close> when it rejects. The \<open>try\<close>/\<open>catch\<close> of \<open>testSMTPConnection\<close> encloses the only
  call that can throw.
\<close>

definition testSMTPConnection :: "verify_outcome \<Rightarrow> string \<Rightarrow> string \<Rightarrow> js_error + result" where
  "testSMTPConnection verify user pass =
     (case verify of
        Verified \<Rightarrow> Inr \<lparr>r_email = user, r_status = working, r_error = None\<rparr>
      | Failed message \<Rightarrow> Inr \<lparr>r_email = user, r_status = dead, r_error = Some message\<rparr>)"

text \<open>
  \<open>workerFunction\<close> runs in the worker thread: it posts the result to the parent when
  the promise of \<open>testSMTPConnection\<close> resolves, and posts nothing otherwise. The value
  is the message posted, if any.
\<close>

definition workerFunction :: "verify_outcome \<Rightarrow> account \<Rightarrow> result option" where
  "workerFunction verify account =
     (case testSMTPConnection verify (email account) (password account) of
        Inr result \<Rightarrow> Some result
      | Inl _ \<Rightarrow> None)"

section \<open>The pool scheduler (\<open>checkSMTPAccounts\<close>)\<close>

datatype promise_state = Pending | Resolved "result list" | Rejected js_error

text \<open>
  The state the closure of \<open>checkSMTPAccounts\<close> shares with its event handlers:
  the array \<open>accounts\<close> (the backlog, popped from its end), the array \<open>results\<close>, the set
  \<open>workers\<close> and the promise. A \<open>Worker\<close> object is identified by its number of creation;
  \<open>created\<close> is the store of the \<open>Worker\<close> objects constructed so far, each with its
  \<open>workerData\<close>, in the order of the calls of \<open>new Worker\<close>.
\<close>

record pool =
  accounts :: "account list"
  results :: "result list"
  workers :: "nat list"
  created :: "account list"
  promise :: promise_state

text \<open>Settling a promise a second time has no effect.\<close>

definition resolve :: "result list \<Rightarrow> pool \<Rightarrow> pool" where
  "resolve v s = (if promise s = Pending then s\<lparr>promise := Resolved v\<rparr> else s)"

definition reject :: "js_error \<Rightarrow> pool \<Rightarrow> pool" where
  "reject e s = (if promise s = Pending then s\<lparr>promise := Rejected e\<rparr> else s)"

text \<open>
  \<open>startWorker(account)\<close>: a new \<open>Worker\<close> with \<open>workerData = account\<close> is constructed and
  added to \<open>workers\<close>; its three handlers are the functions \<open>on_message\<close>, \<open>on_error\<close> and
  \<open>on_exit\<close> below.
\<close>

definition startWorker :: "account \<Rightarrow> pool \<Rightarrow> pool" where
  "startWorker account s =
     s\<lparr>created := created s @ [account], workers := workers s @ [length (created s)]\<rparr>"

text \<open>
  \<open>startWorker(accounts.pop())\<close>, called only where the array is not empty: the last
  element is removed from the backlog and dispatched.
\<close>

definition dispatch_pop :: "pool \<Rightarrow> pool" where
  "dispatch_pop s = startWorker (last (accounts s)) (s\<lparr>accounts := butlast (accounts s)\<rparr>)"

definition on_message :: "nat \<Rightarrow> result \<Rightarrow> pool \<Rightarrow> pool" where
  "on_message worker result s =
     (let s1 = s\<lparr>results := results s @ [result],
                   workers := removeAll worker (workers s)\<rparr>
      in if length (accounts s1) > 0 then dispatch_pop s1
         else if length (workers s1) = 0 then resolve (results s1) s1
         else s1)"

definition on_error :: "string \<Rightarrow> pool \<Rightarrow> pool" where
  "on_error err s = reject (WorkerError err) s"

definition on_exit :: "int \<Rightarrow> pool \<Rightarrow> pool" where
  "on_exit code s = (if code \<noteq> 0 then reject (WorkerExit code) s else s)"

text \<open>
  The loop that starts the initial batch. Its condition
  \<open>i < Math.min(concurrency, accounts.length)\<close> is evaluated before every iteration,
  on the array as the iterations so far have left it.
\<close>

function initial_batch :: "int \<Rightarrow> nat \<Rightarrow> pool \<Rightarrow> pool" where
  "initial_batch concurrency i s =
     (if int i < min concurrency (int (length (accounts s)))
      then initial_batch concurrency (Suc i) (dispatch_pop s)
      else s)"
  by pat_completeness auto
termination
  by (relation "measure (\<lambda>(concurrency, i, s). length (accounts s))")
     (auto simp: dispatch_pop_def startWorker_def)

declare initial_batch.simps [simp del]

text \<open>
  The pool as the executor of the promise leaves it, for a parsed list and a
  concurrency bound.
\<close>

definition start :: "account list \<Rightarrow> int \<Rightarrow> pool" where
  "start accs concurrency =
     initial_batch concurrency 0
       \<lparr>accounts = accs, results = [], workers = [], created = [], promise = Pending\<rparr>"

text \<open>
  \<open>checkSMTPAccounts\<close>: the promise rejects when the file cannot be opened; otherwise
  the pool is started on the parsed list.
\<close>

definition checkSMTPAccounts :: "(string \<rightharpoonup> string list) \<Rightarrow> string \<Rightarrow> int \<Rightarrow> js_error + pool" where
  "checkSMTPAccounts fs filePath concurrency =
     (case parseFile fs filePath of
        Inl e \<Rightarrow> Inl e
      | Inr accs \<Rightarrow> Inr (start accs concurrency))"

subsection \<open>Events of the worker threads\<close>

text \<open>
  After the executor has returned, the pool changes only when a worker emits an event.
  \<open>Message w v\<close>: worker \<open>w\<close> has run \<open>workerFunction\<close> on its \<open>workerData\<close>, where
  \<open>transporter.verify()\<close> did \<open>v\<close>, and its message reaches the parent. \<open>Error w e\<close> and
  \<open>Exit w code\<close> are the \<open>error\<close> and \<open>exit\<close> events of worker \<open>w\<close>.

  \<open>workerFunction\<close> posts one message at most, so a message comes only from a worker
  that is still in \<open>workers\<close>; an error or an exit comes from a worker that exists.
\<close>

datatype event = Message nat verify_outcome | Error nat string | Exit nat int

fun enabled :: "pool \<Rightarrow> event \<Rightarrow> bool" where
  "enabled s (Message w v) = (w < length (created s) \<and> w \<in> set (workers s))"
| "enabled s (Error w e) = (w < length (created s))"
| "enabled s (Exit w code) = (w < length (created s))"

fun handle :: "pool \<Rightarrow> event \<Rightarrow> pool" where
  "handle s (Message w v) =
     (case workerFunction v (created s ! w) of
        Some result \<Rightarrow> on_message w result s
      | None \<Rightarrow> s)"
| "handle s (Error w e) = on_error e s"
| "handle s (Exit w code) = on_exit code s"

fun run :: "pool \<Rightarrow> event list \<Rightarrow> pool" where
  "run s [] = s"
| "run s (ev # evs) = run (handle s ev) evs"

fun feasible :: "pool \<Rightarrow> event list \<Rightarrow> bool" where
  "feasible s [] = True"
| "feasible s (ev # evs) = (enabled s ev \<and> feasible (handle s ev) evs)"

text \<open>An infrastructure fault: an \<open>error\<close> event, or an \<open>exit\<close> with a nonzero code.\<close>

fun is_fault :: "event \<Rightarrow> bool" where
  "is_fault (Message w v) = False"
| "is_fault (Error w e) = True"
| "is_fault (Exit w code) = (code \<noteq> 0)"

fun worker_of :: "event \<Rightarrow> nat" where
  "worker_of (Message w v) = w"
| "worker_of (Error w e) = w"
| "worker_of (Exit w code) = w"

text \<open>The error an infrastructure fault rejects the promise with.\<close>

fun fault_error :: "event \<Rightarrow> js_error option" where
  "fault_error (Message w v) = None"
| "fault_error (Error w e) = Some (WorkerError e)"
| "fault_error (Exit w code) = (if code \<noteq> 0 then Some (WorkerExit code) else None)"

text \<open>Whether the promise has been resolved, that is, the job has returned its results.\<close>

fun is_resolved :: "promise_state \<Rightarrow> bool" where
  "is_resolved Pending = False"
| "is_resolved (Resolved rs) = True"
| "is_resolved (Rejected e) = False"

subsection \<open>The invariant of the pool\<close>

text \<open>
  What holds of the pool in every state a run reaches from \<open>start accs n\<close>: the workers in
  flight are distinct and exist; the records dispatched so far, followed by the backlog
  reversed, are the parsed list reversed; a resolved promise holds the result array, and
  nothing is then left in the backlog or in flight; and the identifiers of the results,
  of the records in flight and of the backlog are together those of the parsed list.
\<close>

definition pool_inv :: "account list \<Rightarrow> pool \<Rightarrow> bool" where
  "pool_inv accs s \<longleftrightarrow>
     distinct (workers s) \<and>
     (\<forall>w \<in> set (workers s). w < length (created s)) \<and>
     created s @ rev (accounts s) = rev accs \<and>
     (\<forall>rs. promise s = Resolved rs \<longrightarrow> rs = results s \<and> accounts s = [] \<and> workers s = []) \<and>
     mset (map r_email (results s)) + mset (map (\<lambda>w. email (created s ! w)) (workers s))
       + mset (map email (accounts s)) = mset (map email accs)"

text \<open>
  A pool that is not stuck: the promise has resolved, or it is pending and some worker
  is in flight.
\<close>

definition live :: "pool \<Rightarrow> bool" where
  "live s \<longleftrightarrow> (\<exists>rs. promise s = Resolved rs) \<or> (promise s = Pending \<and> workers s \<noteq> [])"

section \<open>The upload route (\<open>app.post("/upload")\<close>)\<close>

record uploaded_file =
  path :: string
  filename :: string

text \<open>
  The four responses of the route: 400 \<open>No file uploaded.\<close>, 500 \<open>Error reading file.\<close>,
  400 \<open>Invalid file format.\<close> with the array \<open>invalidLines\<close>, and 200 with the stored
  file name.
\<close>

datatype response =
    NoFileUploaded
  | ReadFailed
  | InvalidFormat "nat list"
  | Uploaded string

fun status_code :: "response \<Rightarrow> nat" where
  "status_code NoFileUploaded = 400"
| "status_code ReadFailed = 500"
| "status_code (InvalidFormat invalidLines) = 400"
| "status_code (Uploaded name) = 200"

definition newline :: char where
  "newline = CHR 0x0A"

text \<open>
  The \<open>forEach\<close> over the lines: \<open>index\<close> counts from 0, and the number pushed is
  \<open>index + 1\<close>.
\<close>

fun collect_invalid :: "nat list \<Rightarrow> nat \<Rightarrow> string list \<Rightarrow> nat list" where
  "collect_invalid invalidLines index [] = invalidLines"
| "collect_invalid invalidLines index (line # rest) =
     collect_invalid
       (if \<not> js_includes line ''@gmail.com:'' then invalidLines @ [index + 1] else invalidLines)
       (Suc index) rest"

text \<open>
  The handler, after multer has stored the upload: the stored files are a map from a
  path to the content, \<open>file\<close> is \<open>req.file\<close> (absent when nothing was uploaded). The
  value is the response, the stored files afterwards (an invalid file is unlinked) and
  the \<open>fileUploaded\<close> events emitted on the socket.
\<close>

definition upload :: "(string \<rightharpoonup> string) \<Rightarrow> uploaded_file option
    \<Rightarrow> response \<times> (string \<rightharpoonup> string) \<times> string list" where
  "upload files file =
     (case file of
        None \<Rightarrow> (NoFileUploaded, files, [])
      | Some f \<Rightarrow>
          (case files (path f) of
             None \<Rightarrow> (ReadFailed, files, [])
           | Some data \<Rightarrow>
               (let lines = js_split newline data;
                    invalidLines = collect_invalid [] 0 lines
                in if length invalidLines > 0
                   then (InvalidFormat invalidLines, files(path f := None), [])
                   else (Uploaded (filename f), files, [filename f]))))"

section \<open>Facts about the built-ins\<close>

lemma js_split_nonempty: "js_split c s \<noteq> []"
  by (subst js_split.simps) (simp split: list.splits)

lemma js_split_no_sep: "c \<notin> set s \<Longrightarrow> js_split c s = [s]"
proof -
  assume "c \<notin> set s"
  then have d: "dropWhile (\<lambda>x. x \<noteq> c) s = []" by (auto simp: dropWhile_eq_Nil_conv)
  show ?thesis by (subst js_split.simps) (simp only: d list.case)
qed

lemma js_split_sep: "c \<notin> set a \<Longrightarrow> js_split c (a @ c # b) = a # js_split c b"
proof -
  assume h: "c \<notin> set a"
  then have d: "dropWhile (\<lambda>x. x \<noteq> c) (a @ c # b) = c # b"
    by (subst dropWhile_append2) auto
  from h have t: "takeWhile (\<lambda>x. x \<noteq> c) (a @ c # b) = a"
    by (subst takeWhile_append2) auto
  show ?thesis by (subst js_split.simps) (simp add: d t)
qed

lemma js_split_Nil: "js_split c [] = [[]]"
  by (simp add: js_split_no_sep)

lemma js_split_Cons:
  "js_split c (x # xs) =
     (if x = c then [] # js_split c xs
      else (x # hd (js_split c xs)) # tl (js_split c xs))"
proof (cases "x = c")
  case True
  then show ?thesis using js_split_sep [of c "[]" xs] by simp
next
  case False
  show ?thesis
  proof (cases "dropWhile (\<lambda>x. x \<noteq> c) xs")
    case Nil
    have "js_split c xs = [xs]" by (subst js_split.simps) (simp only: Nil list.case)
    moreover have "dropWhile (\<lambda>x. x \<noteq> c) (x # xs) = []"
      using Nil False by simp
    then have "js_split c (x # xs) = [x # xs]"
      by (subst js_split.simps) (simp only: list.case)
    ultimately show ?thesis using False by simp
  next
    case (Cons d rest)
    have "js_split c xs = takeWhile (\<lambda>x. x \<noteq> c) xs # js_split c rest"
      by (subst js_split.simps) (simp only: Cons list.case)
    moreover have "dropWhile (\<lambda>x. x \<noteq> c) (x # xs) = d # rest"
      using Cons False by simp
    then have "js_split c (x # xs) = takeWhile (\<lambda>x. x \<noteq> c) (x # xs) # js_split c rest"
      by (subst js_split.simps) (simp only: list.case)
    ultimately show ?thesis using False by simp
  qed
qed

lemma js_split_snoc_sep: "js_split c (s @ [c]) = js_split c s @ [[]]"
proof (induction s)
  case Nil
  show ?case using js_split_sep[of c "[]" "[]"] by (simp add: js_split_Nil)
next
  case (Cons x s)
  then show ?case using js_split_nonempty[of c s] by (cases "js_split c s") (simp_all add: js_split_Cons)  
qed

lemma js_includes_iff: "js_includes s sub \<longleftrightarrow> (\<exists>pre post. s = pre @ sub @ post)"
proof (induction s)
  case Nil
  then show ?case by auto
next
  case (Cons x s)
  show ?case
  proof
    assume "js_includes (x # s) sub"
    then consider "take (length sub) (x # s) = sub" | "js_includes s sub" by auto
    then show "\<exists>pre post. x # s = pre @ sub @ post"
    proof cases
      case 1
      then have "x # s = [] @ sub @ drop (length sub) (x # s)"
        by (metis append_Nil append_take_drop_id)
      then show ?thesis by blast
    next
      case 2
      then obtain pre post where "s = pre @ sub @ post" using Cons.IH by blast
      then have "x # s = (x # pre) @ sub @ post" by simp
      then show ?thesis by blast
    qed
  next
    assume "\<exists>pre post. x # s = pre @ sub @ post"
    then obtain pre post where e: "x # s = pre @ sub @ post" by blast
    show "js_includes (x # s) sub"
    proof (cases pre)
      case Nil
      then have "take (length sub) (x # s) = sub" using e by simp
      then show ?thesis by simp
    next
      case (Cons y pre')
      then have "s = pre' @ sub @ post" using e by simp
      then show ?thesis using Cons.IH by auto
    qed
  qed
qed

section \<open>The parser: what \<open>parseFile\<close> returns\<close>

lemma parse_line_eq:
  "parse_line acc line =
     (if truthy (email_field line) \<and> truthy (password_field line)
      then acc @ [\<lparr>email = the (email_field line), password = the (password_field line)\<rparr>]
      else acc)"
  by (simp add: parse_line_def email_field_def password_field_def Let_def)

lemma foldl_parse_line:
  "foldl parse_line acc lines =
     acc @ map (\<lambda>line. \<lparr>email = the (email_field line), password = the (password_field line)\<rparr>)
             (filter (\<lambda>line. truthy (email_field line) \<and> truthy (password_field line)) lines)"
  by (induction lines arbitrary: acc) (simp_all add: parse_line_eq)

lemma parse_lines_filter:
  "parse_lines lines =
     map (\<lambda>line. \<lparr>email = the (email_field line), password = the (password_field line)\<rparr>)
       (filter (\<lambda>line. truthy (email_field line) \<and> truthy (password_field line)) lines)"
  by (simp add: parse_lines_def foldl_parse_line)

lemma email_field_eq: "email_field line = Some (takeWhile (\<lambda>x. x \<noteq> CHR '':'') line)"
proof (cases "dropWhile (\<lambda>x. x \<noteq> CHR '':'') line")
  case Nil
  then have n: "\<forall>x \<in> set line. x \<noteq> CHR '':''" by (simp add: dropWhile_eq_Nil_conv)
  then have t: "takeWhile (\<lambda>x. x \<noteq> CHR '':'') line = line"
    by (simp add: takeWhile_eq_all_conv)
  have "js_split CHR '':'' line = [line]"
    by (subst js_split.simps) (simp only: Nil list.case)
  then show ?thesis by (simp add: email_field_def js_index_def t)
next
  case (Cons d rest)
  have "js_split CHR '':'' line = takeWhile (\<lambda>x. x \<noteq> CHR '':'') line # js_split CHR '':'' rest"
    by (subst js_split.simps) (simp only: Cons list.case)
  then show ?thesis by (simp add: email_field_def js_index_def)
qed

lemma password_field_eq:
  "password_field line =
     (if CHR '':'' \<in> set line
      then Some (takeWhile (\<lambda>x. x \<noteq> CHR '':'') (tl (dropWhile (\<lambda>x. x \<noteq> CHR '':'') line)))
      else None)"
proof (cases "dropWhile (\<lambda>x. x \<noteq> CHR '':'') line")
  case Nil
  then have "\<forall>x \<in> set line. x \<noteq> CHR '':''" by (simp add: dropWhile_eq_Nil_conv)
  then have n: "CHR '':'' \<notin> set line" by blast
  then have "js_split CHR '':'' line = [line]" by (rule js_split_no_sep)
  then show ?thesis using n by (simp add: password_field_def js_index_def)
next
  case (Cons d rest)
  have "hd (dropWhile (\<lambda>x. x \<noteq> CHR '':'') line) = CHR '':''"
    using hd_dropWhile [of "\<lambda>x. x \<noteq> CHR '':''" line] Cons by simp
  then have "d = CHR '':''" using Cons by simp
  then have y: "CHR '':'' \<in> set line"
    using set_dropWhileD [of d "\<lambda>x. x \<noteq> CHR '':''" line] Cons by simp
  have "js_split CHR '':'' line = takeWhile (\<lambda>x. x \<noteq> CHR '':'') line # js_split CHR '':'' rest"
    by (subst js_split.simps) (simp only: Cons list.case)
  moreover have "js_index (js_split CHR '':'' rest) 0 = Some (takeWhile (\<lambda>x. x \<noteq> CHR '':'') rest)"
    using email_field_eq [of rest] by (simp add: email_field_def)
  ultimately have "password_field line = Some (takeWhile (\<lambda>x. x \<noteq> CHR '':'') rest)"
    by (simp add: password_field_def js_index_def split: if_splits)
  then show ?thesis using y Cons by simp
qed

text \<open>
  On a line with at most one separator the split at every separator and the split on
  the first separator give the same two fields, so \<open>parse_lines\<close> and \<open>spec_parse\<close> agree
  on every source made of such lines.
\<close>

lemma single_separator_rest:
  assumes "length (filter (\<lambda>x. x = c) line) \<le> 1" and "dropWhile (\<lambda>x. x \<noteq> c) line = d # rest"
  shows "c \<notin> set rest"
proof -
  have "hd (dropWhile (\<lambda>x. x \<noteq> c) line) = c"
    using hd_dropWhile [of "\<lambda>x. x \<noteq> c" line] assms(2) by simp
  then have dc: "d = c" using assms(2) by simp
  have "filter (\<lambda>x. x = c) (takeWhile (\<lambda>x. x \<noteq> c) line @ dropWhile (\<lambda>x. x \<noteq> c) line)
          = filter (\<lambda>x. x = c) (takeWhile (\<lambda>x. x \<noteq> c) line)
            @ filter (\<lambda>x. x = c) (dropWhile (\<lambda>x. x \<noteq> c) line)"
    by (rule filter_append)
  then have "filter (\<lambda>x. x = c) line
          = filter (\<lambda>x. x = c) (takeWhile (\<lambda>x. x \<noteq> c) line)
            @ filter (\<lambda>x. x = c) (dropWhile (\<lambda>x. x \<noteq> c) line)"
    by (simp only: takeWhile_dropWhile_id)
  then have "filter (\<lambda>x. x = c) line
          = filter (\<lambda>x. x = c) (takeWhile (\<lambda>x. x \<noteq> c) line)
            @ filter (\<lambda>x. x = c) (d # rest)"
    by (simp only: assms(2))
  then have "length (filter (\<lambda>x. x = c) line)
          = length (filter (\<lambda>x. x = c) (takeWhile (\<lambda>x. x \<noteq> c) line))
            + Suc (length (filter (\<lambda>x. x = c) rest))"
    using dc by simp
  then have "length (filter (\<lambda>x. x = c) rest) = 0" using assms(1) by simp
  then show ?thesis by (auto simp: filter_empty_conv)
qed

lemma parse_line_agrees:
  assumes "length (filter (\<lambda>x. x = CHR '':'') line) \<le> 1"
  shows "parse_line acc line =
     acc @ (case spec_split_first CHR '':'' line of
              None \<Rightarrow> []
            | Some (identifier, secret) \<Rightarrow>
                if identifier \<noteq> [] \<and> secret \<noteq> []
                then [\<lparr>email = identifier, password = secret\<rparr>] else [])"
proof (cases "dropWhile (\<lambda>x. x \<noteq> CHR '':'') line")
  case Nil
  then have "\<forall>x \<in> set line. x \<noteq> CHR '':''" by (simp add: dropWhile_eq_Nil_conv)
  then have n: "CHR '':'' \<notin> set line" by blast
  then show ?thesis
    by (simp add: parse_line_eq password_field_eq spec_split_first_def)
next
  case (Cons d rest)
  have "hd (dropWhile (\<lambda>x. x \<noteq> CHR '':'') line) = CHR '':''"
    using hd_dropWhile [of "\<lambda>x. x \<noteq> CHR '':''" line] Cons by simp
  then have "d = CHR '':''" using Cons by simp
  then have y: "CHR '':'' \<in> set line"
    using set_dropWhileD [of d "\<lambda>x. x \<noteq> CHR '':''" line] Cons by simp
  have "CHR '':'' \<notin> set rest" using assms Cons by (rule single_separator_rest)
  then have t: "takeWhile (\<lambda>x. x \<noteq> CHR '':'') rest = rest"
    by (auto simp: takeWhile_eq_all_conv)
  have pf: "password_field line = Some rest"
    by (simp add: password_field_eq y Cons t)
  have sp: "spec_split_first CHR '':'' line = Some (takeWhile (\<lambda>x. x \<noteq> CHR '':'') line, rest)"
    by (simp add: spec_split_first_def y Cons)
  show ?thesis
    by (simp add: parse_line_eq pf email_field_eq sp)
qed

lemma foldl_parse_line_agrees:
  "\<forall>line \<in> set lines. length (filter (\<lambda>x. x = CHR '':'') line) \<le> 1 \<Longrightarrow>
     foldl parse_line acc lines = acc @ spec_parse lines"
  by (induction lines arbitrary: acc) (simp_all add: spec_parse_def parse_line_agrees)

lemma parse_agrees_single_separator:
  "\<forall>line \<in> set lines. length (filter (\<lambda>x. x = CHR '':'') line) \<le> 1 \<Longrightarrow>
     parse_lines lines = spec_parse lines"
  by (simp add: parse_lines_def foldl_parse_line_agrees)

text \<open>
  Claim C6 (the parser returns exactly the records of the lines that split into two
  non-empty fields, in order, and drops every other line): the claim fails on the code
  for a line whose secret begins with the separator. The line \<open>a@gmail.com::pw\<close> splits
  on its first separator into the non-empty fields \<open>a@gmail.com\<close> and \<open>:pw\<close>, so the
  specification keeps it; the code splits at every separator, reads an empty second
  field and drops the line.
\<close>

theorem line_with_leading_separator_in_secret_dropped:
  "parse_lines [''a@gmail.com::pw'', ''b@gmail.com:pw''] = [\<lparr>email = ''b@gmail.com'', password = ''pw''\<rparr>]
   \<and> spec_parse [''a@gmail.com::pw'', ''b@gmail.com:pw'']
       = [\<lparr>email = ''a@gmail.com'', password = '':pw''\<rparr>, \<lparr>email = ''b@gmail.com'', password = ''pw''\<rparr>]"
  by code_simp

text \<open>
  Claim C7 (an accepted line is split on the first separator, and the secret is the
  whole remainder of the line with any further separators): the claim fails on the
  code. For the line \<open>user@gmail.com:pa:ss\<close> the split on the first separator gives the
  secret \<open>pa:ss\<close>; the code returns the password \<open>pa\<close>, the text between the first and
  the second separator.
\<close>

theorem secret_truncated_at_second_separator:
  "parse_lines [''user@gmail.com:pa:ss''] = [\<lparr>email = ''user@gmail.com'', password = ''pa''\<rparr>]
   \<and> spec_split_first CHR '':'' ''user@gmail.com:pa:ss'' = Some (''user@gmail.com'', ''pa:ss'')"
  by code_simp

section \<open>The verification unit: what \<open>testSMTPConnection\<close> returns\<close>

text \<open>
  Claim C5: for every identifier and secret, \<open>testSMTPConnection\<close> resolves with status
  \<open>working\<close> when the authentication succeeds and with status \<open>dead\<close> and the message
  of the error when \<open>transporter.verify()\<close> fails; whatever the outcome, its promise
  resolves and never rejects.
\<close>

theorem testSMTPConnection_classifies:
  "testSMTPConnection Verified user pass
     = Inr \<lparr>r_email = user, r_status = working, r_error = None\<rparr>
   \<and> testSMTPConnection (Failed message) user pass
     = Inr \<lparr>r_email = user, r_status = dead, r_error = Some message\<rparr>
   \<and> (\<forall>v. \<exists>r. testSMTPConnection v user pass = Inr r)"
  by (auto simp: testSMTPConnection_def split: verify_outcome.splits)

section \<open>The pool: invariants and runs\<close>

lemma pool_inv_init:
  "pool_inv accs \<lparr>accounts = accs, results = [], workers = [], created = [], promise = Pending\<rparr>"
  by (simp add: pool_inv_def)

lemma map_nth_append_below:
  "\<forall>w \<in> set ws. w < length xs \<Longrightarrow> map (\<lambda>w. f ((xs @ ys) ! w)) ws = map (\<lambda>w. f (xs ! w)) ws"
  by (simp add: nth_append)

lemma pool_inv_dispatch_pop:
  assumes "pool_inv accs s" and "accounts s \<noteq> []"
  shows "pool_inv accs (dispatch_pop s)"
proof -
  obtain bs b where a: "accounts s = bs @ [b]"
    using assms(2) by (cases "accounts s" rule: rev_cases) auto
  have bound: "\<forall>w \<in> set (workers s). w < length (created s)"
    using assms by (simp add: pool_inv_def)
  then have fresh: "length (created s) \<notin> set (workers s)" by auto
  have np: "\<And>rs. promise s \<noteq> Resolved rs"
    using assms by (auto simp: pool_inv_def)
  show ?thesis
    using assms(1) fresh np bound
    by (auto simp: pool_inv_def dispatch_pop_def startWorker_def a map_nth_append_below less_Suc_eq)
qed

lemma pool_inv_initial_batch:
  "pool_inv accs s \<Longrightarrow> pool_inv accs (initial_batch n i s)"
proof (induction n i s rule: initial_batch.induct)
  case (1 concurrency i s)
  show ?case
  proof (cases "int i < min concurrency (int (length (accounts s)))")
    case True
    then have "accounts s \<noteq> []" by auto
    then have "pool_inv accs (dispatch_pop s)"
      using "1.prems" by (simp add: pool_inv_dispatch_pop)
    then have "pool_inv accs (initial_batch concurrency (Suc i) (dispatch_pop s))"
      using True by (rule "1.IH" [rotated])
    then show ?thesis using True by (subst initial_batch.simps) simp
  next
    case False
    then show ?thesis using "1.prems" by (subst initial_batch.simps) auto
  qed
qed

lemma pool_inv_start: "pool_inv accs (start accs n)"
  unfolding start_def by (rule pool_inv_initial_batch) (rule pool_inv_init)

lemma mset_map_removeAll:
  "distinct ws \<Longrightarrow> w \<in> set ws \<Longrightarrow>
     add_mset (f w) (mset (map f (removeAll w ws))) = mset (map f ws)"
  by (induction ws) (auto simp: distinct_removeAll)

lemma pool_inv_on_message:
  assumes "pool_inv accs s" and "w \<in> set (workers s)" and "r_email r = email (created s ! w)"
  shows "pool_inv accs (on_message w r s)"
proof -
  let ?s1 = "s\<lparr>results := results s @ [r], workers := removeAll w (workers s)\<rparr>"
  have np: "\<And>rs. promise s \<noteq> Resolved rs"
    using assms(1,2) by (auto simp: pool_inv_def)
  have d: "distinct (workers s)" using assms(1) by (simp add: pool_inv_def)
  have m: "add_mset (email (created s ! w))
             (mset (map (\<lambda>w. email (created s ! w)) (removeAll w (workers s))))
           = mset (map (\<lambda>w. email (created s ! w)) (workers s))"
    using d assms(2) by (rule mset_map_removeAll)
  have i1: "pool_inv accs ?s1"
    using assms(1,3) np m [symmetric] by (simp add: pool_inv_def distinct_removeAll)
  show ?thesis
  proof (cases "accounts s = []")
    case False
    then have "pool_inv accs (dispatch_pop ?s1)"
      using i1 by (intro pool_inv_dispatch_pop) simp_all
    then show ?thesis using False by (simp add: on_message_def Let_def)
  next
    case True
    show ?thesis
    proof (cases "removeAll w (workers s) = []")
      case False
      then show ?thesis using True i1 by (simp add: on_message_def Let_def)
    next
      case e: True
      have "pool_inv accs (resolve (results ?s1) ?s1)"
        using i1 True e by (simp add: resolve_def pool_inv_def)
      then show ?thesis using True e by (simp add: on_message_def Let_def)
    qed
  qed
qed

lemma pool_inv_reject: "pool_inv accs s \<Longrightarrow> pool_inv accs (reject e s)"
  by (simp add: reject_def pool_inv_def)

lemma r_email_workerFunction:
  "workerFunction v a = Some r \<Longrightarrow> r_email r = email a"
  by (auto simp: workerFunction_def testSMTPConnection_def split: verify_outcome.splits)

lemma pool_inv_handle:
  assumes "pool_inv accs s" and "enabled s ev"
  shows "pool_inv accs (handle s ev)"
proof (cases ev)
  case (Message w v)
  then have w: "w \<in> set (workers s)" using assms(2) by simp
  show ?thesis
  proof (cases "workerFunction v (created s ! w)")
    case None
    then show ?thesis using Message assms(1) by simp
  next
    case (Some r)
    then have "r_email r = email (created s ! w)" by (rule r_email_workerFunction)
    then have "pool_inv accs (on_message w r s)"
      using assms(1) w by (intro pool_inv_on_message)
    then show ?thesis using Message Some by simp
  qed
next
  case (Error w e)
  then show ?thesis using assms(1) by (simp add: on_error_def pool_inv_reject)
next
  case (Exit w code)
  then show ?thesis using assms(1) by (simp add: on_exit_def pool_inv_reject)
qed

lemma pool_inv_run:
  "pool_inv accs s \<Longrightarrow> feasible s evs \<Longrightarrow> pool_inv accs (run s evs)"
  by (induction evs arbitrary: s) (simp_all add: pool_inv_handle)

lemma run_append: "run s (xs @ ys) = run (run s xs) ys"
  by (induction xs arbitrary: s) simp_all

lemma feasible_append: "feasible s (xs @ ys) \<longleftrightarrow> feasible s xs \<and> feasible (run s xs) ys"
  by (induction xs arbitrary: s) auto

lemma promise_dispatch_pop: "promise (dispatch_pop s) = promise s"
  by (simp add: dispatch_pop_def startWorker_def)

lemma rejected_on_message:
  "promise s = Rejected e \<Longrightarrow> promise (on_message w r s) = Rejected e"
  by (simp add: on_message_def Let_def promise_dispatch_pop resolve_def)

lemma rejected_handle:
  "promise s = Rejected e \<Longrightarrow> promise (handle s ev) = Rejected e"
  by (cases ev)
     (simp_all add: rejected_on_message on_error_def on_exit_def reject_def split: option.splits)

lemma rejected_run:
  "promise s = Rejected e \<Longrightarrow> promise (run s evs) = Rejected e"
  by (induction evs arbitrary: s) (simp_all add: rejected_handle)

subsection \<open>The size of the initial batch and the number of workers in flight\<close>

text \<open>
  The loop of the initial batch runs while \<open>i < concurrency\<close> and \<open>i\<close> is below the length
  of the array it has shortened \<open>i\<close> times: from an empty set it starts
  \<open>min n ((M + 1) div 2)\<close> workers for a list of \<open>M\<close> records. No handler lets the number of
  workers in flight grow, so that number stays at most \<open>min n M\<close> in every run.
\<close>

lemma promise_initial_batch: "promise (initial_batch n i s) = promise s"
proof (induction n i s rule: initial_batch.induct)
  case (1 concurrency i s)
  show ?case
  proof (cases "int i < min concurrency (int (length (accounts s)))")
    case True
    then have "promise (initial_batch concurrency (Suc i) (dispatch_pop s)) = promise s"
      using "1.IH" by (simp add: promise_dispatch_pop)
    then show ?thesis using True by (subst initial_batch.simps) simp
  next
    case False
    then show ?thesis by (subst initial_batch.simps) auto
  qed
qed

lemma length_workers_dispatch_pop: "length (workers (dispatch_pop s)) = Suc (length (workers s))"
  by (simp add: dispatch_pop_def startWorker_def)

lemma length_accounts_dispatch_pop: "length (accounts (dispatch_pop s)) = length (accounts s) - 1"
  by (simp add: dispatch_pop_def startWorker_def)

lemma initial_batch_size:
  "length (workers (initial_batch n i s)) =
     length (workers s) + nat (min (n - int i) ((int (length (accounts s)) - int i + 1) div 2))"
proof (induction n i s rule: initial_batch.induct)
  case (1 concurrency i s)
  define L where "L = int (length (accounts s))"
  define k where "k = int i"
  show ?case
  proof (cases "int i < min concurrency (int (length (accounts s)))")
    case True
    then have b: "k < concurrency" "k < L" by (simp_all add: L_def k_def)
    have e1: "concurrency - int (Suc i) = concurrency - k - 1" by (simp add: k_def)
    have e2: "int (length (accounts s) - 1) - int (Suc i) + 1 = L - k - 1"
      using b by (simp add: L_def k_def)
    have x: "(L - k - 1) div 2 = (L - k + 1) div 2 - 1" by presburger
    have p: "1 \<le> (L - k + 1) div 2" using b by presburger
    have m: "min (concurrency - k - 1) ((L - k + 1) div 2 - 1)
               = min (concurrency - k) ((L - k + 1) div 2) - 1"
      by (simp add: min_def)
    have q: "1 \<le> min (concurrency - k) ((L - k + 1) div 2)"
      using b p by (simp add: min_def)
    have "length (workers (initial_batch concurrency i s))
            = length (workers (initial_batch concurrency (Suc i) (dispatch_pop s)))"
      using True by (subst initial_batch.simps) simp
    also have "\<dots> = Suc (length (workers s))
         + nat (min (concurrency - int (Suc i))
                  ((int (length (accounts s) - 1) - int (Suc i) + 1) div 2))"
      using True "1.IH" by (simp add: length_workers_dispatch_pop length_accounts_dispatch_pop)
    also have "\<dots> = Suc (length (workers s))
         + nat (min (concurrency - k) ((L - k + 1) div 2) - 1)"
      by (simp only: e1 e2 x m)
    also have "\<dots> = length (workers s) + nat (min (concurrency - k) ((L - k + 1) div 2))"
      using q by (simp add: nat_diff_distrib)
    finally show ?thesis by (simp only: L_def k_def)
  next
    case False
    then have "concurrency - k \<le> 0 \<or> L - k \<le> 0" by (auto simp: L_def k_def)
    then have "concurrency - k \<le> 0 \<or> (L - k + 1) div 2 \<le> 0" by presburger
    then have "nat (min (concurrency - k) ((L - k + 1) div 2)) = 0"
      by (auto simp: min_def)
    then show ?thesis using False by (subst initial_batch.simps) (auto simp: L_def k_def)
  qed
qed

lemma initial_workers:
  "length (workers (start accs n)) = nat (min n ((int (length accs) + 1) div 2))"
  by (simp add: start_def initial_batch_size)

lemma length_removeAll_distinct:
  "distinct ws \<Longrightarrow> w \<in> set ws \<Longrightarrow> Suc (length (removeAll w ws)) = length ws"
  by (induction ws) (auto simp: distinct_removeAll)

lemma length_workers_on_message:
  assumes "distinct (workers s)" and "w \<in> set (workers s)"
  shows "length (workers (on_message w r s)) \<le> length (workers s)"
  using length_removeAll_distinct [OF assms]
  by (simp add: on_message_def Let_def length_workers_dispatch_pop resolve_def)

lemma length_workers_handle:
  assumes "pool_inv accs s" and "enabled s ev"
  shows "length (workers (handle s ev)) \<le> length (workers s)"
proof (cases ev)
  case (Message w v)
  have "distinct (workers s)" using assms(1) by (simp add: pool_inv_def)
  moreover have "w \<in> set (workers s)" using assms(2) Message by simp
  ultimately show ?thesis
    using Message by (simp add: length_workers_on_message split: option.splits)
next
  case (Error w e)
  then show ?thesis by (simp add: on_error_def reject_def)
next
  case (Exit w code)
  then show ?thesis by (simp add: on_exit_def reject_def)
qed

lemma length_workers_run:
  "pool_inv accs s \<Longrightarrow> feasible s evs \<Longrightarrow> length (workers (run s evs)) \<le> length (workers s)"
proof (induction evs arbitrary: s)
  case Nil
  show ?case by simp
next
  case (Cons ev evs)
  have "length (workers (run (handle s ev) evs)) \<le> length (workers (handle s ev))"
    using Cons by (simp add: pool_inv_handle)
  also have "\<dots> \<le> length (workers s)"
    using Cons.prems by (simp add: length_workers_handle)
  finally show ?case by simp
qed

lemma in_flight_bounded:
  assumes "feasible (start accs n) evs"
  shows "length (workers (run (start accs n) evs)) \<le> nat (min n (int (length accs)))"
proof -
  have "length (workers (run (start accs n) evs)) \<le> length (workers (start accs n))"
    using pool_inv_start assms by (rule length_workers_run)
  also have "\<dots> = nat (min n ((int (length accs) + 1) div 2))"
    by (rule initial_workers)
  also have "\<dots> \<le> nat (min n (int (length accs)))"
  proof -
    have "(int (length accs) + 1) div 2 \<le> int (length accs)" by presburger
    then have "min n ((int (length accs) + 1) div 2) \<le> min n (int (length accs))"
      by (rule min.mono [OF order_refl])
    then show ?thesis by (rule nat_mono)
  qed
  finally show ?thesis .
qed

subsection \<open>Runs without infrastructure faults\<close>

text \<open>
  For a non-empty list and a positive bound, a run without faults at whose end no
  worker is in flight has resolved the promise with one result for every record, and
  such a run exists from every state the pool reaches.
\<close>

lemma start_nonempty:
  assumes "accs \<noteq> []" and "0 < n"
  shows "workers (start accs n) \<noteq> []" and "promise (start accs n) = Pending"
proof -
  have "1 \<le> int (length accs)" using assms(1) by (cases accs) simp_all
  then have "1 \<le> (int (length accs) + 1) div 2" by presburger
  then have "0 < nat (min n ((int (length accs) + 1) div 2))"
    using assms(2) by (simp add: min_def)
  then have "0 < length (workers (start accs n))" by (simp add: initial_workers)
  then show "workers (start accs n) \<noteq> []" by simp
  show "promise (start accs n) = Pending" by (simp add: start_def promise_initial_batch)
qed

lemma live_on_message:
  assumes "promise s = Pending"
  shows "live (on_message w r s)"
  using assms
  by (simp add: live_def on_message_def Let_def resolve_def dispatch_pop_def startWorker_def)

lemma live_handle:
  assumes "pool_inv accs s" and "live s" and "enabled s ev" and "\<not> is_fault ev"
  shows "live (handle s ev)"
proof (cases ev)
  case (Message w v)
  then have w: "w \<in> set (workers s)" using assms(3) by simp
  then have "\<And>rs. promise s \<noteq> Resolved rs" using assms(1) by (auto simp: pool_inv_def)
  then have "promise s = Pending" using assms(2) by (auto simp: live_def)
  then show ?thesis using Message assms(2) by (simp add: live_on_message split: option.splits)
next
  case (Error w e)
  then show ?thesis using assms(4) by simp
next
  case (Exit w code)
  then show ?thesis using assms(2,4) by (simp add: on_exit_def)
qed

lemma live_run:
  "pool_inv accs s \<Longrightarrow> live s \<Longrightarrow> feasible s evs \<Longrightarrow> \<forall>ev \<in> set evs. \<not> is_fault ev
     \<Longrightarrow> live (run s evs)"
  by (induction evs arbitrary: s) (simp_all add: live_handle pool_inv_handle)

lemma fault_free_run_resolves:
  assumes "accs \<noteq> []" and "0 < n"
    and "feasible (start accs n) evs"
    and "\<forall>ev \<in> set evs. \<not> is_fault ev"
    and "workers (run (start accs n) evs) = []"
  shows "\<exists>rs. promise (run (start accs n) evs) = Resolved rs
           \<and> length rs = length accs
           \<and> mset (map r_email rs) = mset (map email accs)"
proof -
  let ?s = "run (start accs n) evs"
  have i: "pool_inv accs ?s"
    using assms(3) by (intro pool_inv_run pool_inv_start)
  have "live (start accs n)"
    using start_nonempty [OF assms(1,2)] by (simp add: live_def)
  with pool_inv_start have "live ?s"
    using assms(3,4) by (rule live_run)
  then obtain rs where r: "promise ?s = Resolved rs"
    using assms(5) by (auto simp: live_def)
  then have e: "rs = results ?s" "accounts ?s = []" "workers ?s = []"
    using i by (simp_all add: pool_inv_def)
  then have m: "mset (map r_email rs) = mset (map email accs)"
    using i by (simp add: pool_inv_def)
  then have "size (mset (map r_email rs)) = size (mset (map email accs))" by simp
  then have "length rs = length accs" by simp
  then show ?thesis using r m by blast
qed

lemma backlog_on_message:
  assumes "distinct (workers s)" and "w \<in> set (workers s)"
  shows "length (accounts (on_message w r s)) + length (workers (on_message w r s))
           < length (accounts s) + length (workers s)"
proof -
  have l: "Suc (length (removeAll w (workers s))) = length (workers s)"
    using assms by (rule length_removeAll_distinct)
  show ?thesis
  proof (cases "accounts s = []")
    case True
    then show ?thesis using l by (auto simp: on_message_def Let_def resolve_def)
  next
    case False
    then have "0 < length (accounts s)" by simp
    then show ?thesis
      using l by (simp add: on_message_def Let_def dispatch_pop_def startWorker_def)
  qed
qed

lemma workerFunction_total: "\<exists>r. workerFunction v a = Some r"
  by (simp add: workerFunction_def testSMTPConnection_def split: verify_outcome.splits)

lemma completion_exists:
  "pool_inv accs s \<Longrightarrow>
     \<exists>evs. feasible s evs \<and> (\<forall>ev \<in> set evs. \<not> is_fault ev) \<and> workers (run s evs) = []"
proof (induction "length (accounts s) + length (workers s)" arbitrary: s rule: less_induct)
  case less
  show ?case
  proof (cases "workers s")
    case Nil
    then have "feasible s [] \<and> (\<forall>ev \<in> set []. \<not> is_fault ev) \<and> workers (run s []) = []"
      by simp
    then show ?thesis by blast
  next
    case (Cons w ws)
    let ?ev = "Message w Verified"
    have w: "w \<in> set (workers s)" using Cons by simp
    have d: "distinct (workers s)" using less.prems by (simp add: pool_inv_def)
    have "w < length (created s)" using less.prems w by (simp add: pool_inv_def)
    then have en: "enabled s ?ev" using w by simp
    obtain r where r: "workerFunction Verified (created s ! w) = Some r"
      using workerFunction_total by blast
    then have h: "handle s ?ev = on_message w r s" by simp
    have "length (accounts (handle s ?ev)) + length (workers (handle s ?ev))
            < length (accounts s) + length (workers s)"
      unfolding h using d w by (rule backlog_on_message)
    moreover have "pool_inv accs (handle s ?ev)"
      using less.prems en by (rule pool_inv_handle)
    ultimately obtain evs where
      e: "feasible (handle s ?ev) evs" "\<forall>ev \<in> set evs. \<not> is_fault ev"
         "workers (run (handle s ?ev) evs) = []"
      using less.hyps by blast
    have "feasible s (?ev # evs) \<and> (\<forall>ev \<in> set (?ev # evs). \<not> is_fault ev)
            \<and> workers (run s (?ev # evs)) = []"
      using en e by simp
    then show ?thesis by blast
  qed
qed

lemma fault_free_run_exists:
  assumes "accs \<noteq> []" and "0 < n"
  shows "\<exists>evs rs. feasible (start accs n) evs \<and> (\<forall>ev \<in> set evs. \<not> is_fault ev)
           \<and> promise (run (start accs n) evs) = Resolved rs \<and> length rs = length accs"
proof -
  obtain evs where
    e: "feasible (start accs n) evs" "\<forall>ev \<in> set evs. \<not> is_fault ev"
       "workers (run (start accs n) evs) = []"
    using completion_exists [OF pool_inv_start] by blast
  from fault_free_run_resolves [OF assms e] e show ?thesis by blast
qed

subsection \<open>Faults and the empty list\<close>

lemma fault_rejects:
  assumes "is_fault ev" and "\<And>rs. promise s \<noteq> Resolved rs"
  shows "\<exists>err. promise (handle s ev) = Rejected err
            \<and> (promise s = Pending \<longrightarrow> fault_error ev = Some err)"
  using assms
  by (cases ev; cases "promise s") (auto simp: on_error_def on_exit_def reject_def)

lemma start_Nil:
  "start [] n = \<lparr>accounts = [], results = [], workers = [], created = [], promise = Pending\<rparr>"
  by (simp add: start_def initial_batch.simps)

lemma not_enabled_no_workers: "created s = [] \<Longrightarrow> \<not> enabled s ev"
  by (cases ev) simp_all

text \<open>
  Claim C1 (for M accepted records and a concurrency bound N > 0, a run without
  infrastructure faults resolves with exactly M results): the claim fails on the code
  for M = 0. On the empty list the loop of the initial batch starts no worker, no
  event can follow, and in every run the promise is still pending: the job never
  resolves with the empty result array.
\<close>

theorem empty_list_never_resolves:
  "feasible (start [] n) evs \<Longrightarrow> promise (run (start [] n) evs) = Pending"
proof (cases evs)
  case Nil
  then show ?thesis by (simp add: start_Nil)
next
  case (Cons ev rest)
  assume "feasible (start [] n) evs"
  then have "enabled (start [] n) ev" using Cons by simp
  then show ?thesis using not_enabled_no_workers [of "start [] n" ev] by (simp add: start_Nil)
qed

theorem empty_list_never_resolves_witness:
  "feasible (start [] 5) [] \<and> promise (run (start [] 5) []) = Pending"
  using empty_list_never_resolves [of 5 "[]"] by simp

text \<open>
  Claim C2 (the initial dispatch launches exactly min(N, M) units): the claim fails on
  the code. With two records and the bound 2 the loop of the initial batch starts one
  worker only, for the last record, and leaves the first record in the backlog,
  although min(2, 2) = 2: the condition of the loop reads the length of the array the
  first iteration has already shortened.
\<close>

theorem initial_batch_two_of_two:
  "workers (start [a, b] 2) = [0] \<and> created (start [a, b] 2) = [b]
     \<and> accounts (start [a, b] 2) = [a] \<and> min (2::int) (int (length [a, b])) = 2"
  by (simp add: start_def initial_batch.simps dispatch_pop_def startWorker_def)

text \<open>
  Claim C3 (on an empty record list the job completes at once with an empty result
  sequence and no unit dispatched): the claim fails on the code. When the file is read
  and no line of it gives a record, no worker is created, but the promise is left
  pending and no event is enabled that could settle it.
\<close>

theorem no_records_job_never_completes:
  assumes "fs filePath = Some lines" and "parse_lines lines = []"
  shows "\<exists>s. checkSMTPAccounts fs filePath n = Inr s \<and> created s = []
           \<and> promise s = Pending \<and> (\<forall>ev. \<not> enabled s ev)"
  using assms by (simp add: checkSMTPAccounts_def parseFile_def start_Nil not_enabled_no_workers)

theorem no_records_job_never_completes_witness:
  "[''uploads/4-list.txt'' \<mapsto> [''@gmail.com:'']] ''uploads/4-list.txt'' = Some [''@gmail.com:'']
   \<and> js_includes ''@gmail.com:'' ''@gmail.com:''
   \<and> parse_lines [''@gmail.com:''] = []
   \<and> (\<exists>s. checkSMTPAccounts [''uploads/4-list.txt'' \<mapsto> [''@gmail.com:'']] ''uploads/4-list.txt'' 5 = Inr s
          \<and> created s = [] \<and> promise s = Pending)"
proof -
  have h1: "[''uploads/4-list.txt'' \<mapsto> [''@gmail.com:'']] ''uploads/4-list.txt'' = Some [''@gmail.com:'']"
    by simp
  have h2: "parse_lines [''@gmail.com:''] = []" by code_simp
  have v: "js_includes ''@gmail.com:'' ''@gmail.com:''" by code_simp
  from no_records_job_never_completes
         [of "[''uploads/4-list.txt'' \<mapsto> [''@gmail.com:'']]" "''uploads/4-list.txt''"
             "[''@gmail.com:'']" 5, OF h1 h2]
  show ?thesis using h1 h2 v by blast
qed

text \<open>
  While a worker is in flight the promise has not resolved: a fault of a unit that
  has not reported always meets a job that has not returned.
\<close>

lemma in_flight_not_resolved:
  assumes "feasible (start accs n) pre" and "w \<in> set (workers (run (start accs n) pre))"
  shows "\<not> is_resolved (promise (run (start accs n) pre))"
proof -
  have "pool_inv accs (run (start accs n) pre)"
    using assms(1) by (intro pool_inv_run pool_inv_start)
  then have "\<And>rs. promise (run (start accs n) pre) \<noteq> Resolved rs"
    using assms(2) by (auto simp: pool_inv_def)
  then show ?thesis by (cases "promise (run (start accs n) pre)") auto
qed

text \<open>
  Claim C4, as amended: in every run in which a unit suffers an infrastructure fault
  (an \<open>error\<close> event, or an \<open>exit\<close> with a nonzero code) while the promise has not
  already resolved, the promise is rejected from the fault on and to the end of the
  run, with one and the same error; it is the error of this fault when the promise
  was still pending. So the job returns no results, whatever the other units have
  reported before or report after the fault, and whether or not the faulting unit has
  itself reported.
\<close>

theorem fault_aborts_job:
  assumes "feasible (start accs n) (pre @ ev # post)"
    and "is_fault ev"
    and "\<not> is_resolved (promise (run (start accs n) pre))"
  shows "\<exists>err. promise (run (start accs n) (pre @ [ev])) = Rejected err
           \<and> promise (run (start accs n) (pre @ ev # post)) = Rejected err
           \<and> (promise (run (start accs n) pre) = Pending \<longrightarrow> fault_error ev = Some err)"
proof -
  let ?s = "run (start accs n) pre"
  have "\<And>rs. promise ?s \<noteq> Resolved rs"
    using assms(3) by auto
  with assms(2) obtain err where
    e: "promise (handle ?s ev) = Rejected err"
      "promise ?s = Pending \<longrightarrow> fault_error ev = Some err"
    using fault_rejects by blast
  have "promise (run (handle ?s ev) post) = Rejected err"
    using e(1) by (rule rejected_run)
  then show ?thesis using e by (auto simp: run_append)
qed

text \<open>
  The theorem at a run over three records with the bound 2: worker 0 reports, then
  exits with code 1 while the job is pending, and worker 2 reports afterwards. The
  job is rejected with the error of that exit although one result had been collected
  and the faulting worker had itself reported.
\<close>

theorem fault_aborts_job_witness:
  "feasible
     (start [\<lparr>email = ''a@x.com'', password = ''p1''\<rparr>, \<lparr>email = ''b@x.com'', password = ''p2''\<rparr>,
             \<lparr>email = ''c@x.com'', password = ''p3''\<rparr>] 2)
     ([Message 0 Verified] @ Exit 0 1 # [Message 2 (Failed ''refused'')])
   \<and> is_fault (Exit 0 1)
   \<and> \<not> is_resolved (promise (run
        (start [\<lparr>email = ''a@x.com'', password = ''p1''\<rparr>, \<lparr>email = ''b@x.com'', password = ''p2''\<rparr>,
                \<lparr>email = ''c@x.com'', password = ''p3''\<rparr>] 2) [Message 0 Verified]))
   \<and> results (run
        (start [\<lparr>email = ''a@x.com'', password = ''p1''\<rparr>, \<lparr>email = ''b@x.com'', password = ''p2''\<rparr>,
                \<lparr>email = ''c@x.com'', password = ''p3''\<rparr>] 2) [Message 0 Verified])
       = [\<lparr>r_email = ''c@x.com'', r_status = working, r_error = None\<rparr>]
   \<and> promise (run
        (start [\<lparr>email = ''a@x.com'', password = ''p1''\<rparr>, \<lparr>email = ''b@x.com'', password = ''p2''\<rparr>,
                \<lparr>email = ''c@x.com'', password = ''p3''\<rparr>] 2)
        ([Message 0 Verified] @ Exit 0 1 # [Message 2 (Failed ''refused'')]))
       = Rejected (WorkerExit 1)"
proof -
  let ?A = "[\<lparr>email = ''a@x.com'', password = ''p1''\<rparr>, \<lparr>email = ''b@x.com'', password = ''p2''\<rparr>,
             \<lparr>email = ''c@x.com'', password = ''p3''\<rparr>]"
  let ?pre = "[Message 0 Verified]"
  let ?post = "[Message 2 (Failed ''refused'')]"
  have h1: "feasible (start ?A 2) (?pre @ Exit 0 1 # ?post)" by code_simp
  have h2: "is_fault (Exit 0 1)" by simp
  have h5: "promise (run (start ?A 2) ?pre) = Pending" by code_simp
  then have h3: "\<not> is_resolved (promise (run (start ?A 2) ?pre))" by simp
  have h4: "results (run (start ?A 2) ?pre)
             = [\<lparr>r_email = ''c@x.com'', r_status = working, r_error = None\<rparr>]" by code_simp
  from fault_aborts_job [OF h1 h2 h3] h5
  have "promise (run (start ?A 2) (?pre @ Exit 0 1 # ?post)) = Rejected (WorkerExit 1)"
    by simp
  then show ?thesis using h1 h2 h3 h4 by blast
qed

text \<open>
  Without the condition the statement fails. On one record, the worker reports, the
  job resolves with its result, and the worker then exits with code 1: the run holds
  an infrastructure fault, yet \<open>reject\<close> finds the promise settled and the job has
  returned one result.
\<close>

theorem fault_after_resolve_counterexample:
  "feasible (start [\<lparr>email = ''a@x.com'', password = ''p1''\<rparr>] 1) [Message 0 Verified, Exit 0 1]
   \<and> is_fault (Exit 0 1)
   \<and> promise (run (start [\<lparr>email = ''a@x.com'', password = ''p1''\<rparr>] 1)
                 [Message 0 Verified, Exit 0 1])
       = Resolved [\<lparr>r_email = ''a@x.com'', r_status = working, r_error = None\<rparr>]"
  by code_simp

text \<open>
  Claim C9: for every non-empty record list, in every state a run reaches, the records
  dispatched so far (the initial batch and the replacements, in the order of
  dispatch) followed by the reversed backlog are the reversed input list: every
  dispatch takes the record at the end of the remaining backlog. Once the backlog is
  exhausted, as it is when the job has resolved, the order of dispatch is the reverse
  of the input order, and the first input record is the last one dispatched.
\<close>

theorem dispatch_reverse_order:
  assumes "accs \<noteq> []" and "feasible (start accs n) evs"
  shows "created (run (start accs n) evs) @ rev (accounts (run (start accs n) evs)) = rev accs
         \<and> (accounts (run (start accs n) evs) = [] \<longrightarrow>
               created (run (start accs n) evs) = rev accs
               \<and> last (created (run (start accs n) evs)) = hd accs)
         \<and> (\<forall>rs. promise (run (start accs n) evs) = Resolved rs \<longrightarrow>
               accounts (run (start accs n) evs) = [])"
proof -
  let ?s = "run (start accs n) evs"
  have i: "pool_inv accs ?s"
    using assms(2) by (intro pool_inv_run pool_inv_start)
  then have o: "created ?s @ rev (accounts ?s) = rev accs"
    by (simp add: pool_inv_def)
  have "created ?s = rev accs \<and> last (created ?s) = hd accs" if "accounts ?s = []"
  proof -
    have "created ?s = rev accs" using o that by simp
    then show ?thesis using assms(1) by (simp add: last_rev)
  qed
  moreover have "accounts ?s = []" if "promise ?s = Resolved rs" for rs
    using i that by (simp add: pool_inv_def)
  ultimately show ?thesis using o by blast
qed

theorem dispatch_reverse_order_witness:
  "[\<lparr>email = ''a@x.com'', password = ''p1''\<rparr>, \<lparr>email = ''b@x.com'', password = ''p2''\<rparr>,
    \<lparr>email = ''c@x.com'', password = ''p3''\<rparr>] \<noteq> []
   \<and> feasible
       (start [\<lparr>email = ''a@x.com'', password = ''p1''\<rparr>, \<lparr>email = ''b@x.com'', password = ''p2''\<rparr>,
               \<lparr>email = ''c@x.com'', password = ''p3''\<rparr>] 2)
       [Message 1 Verified, Message 0 (Failed ''refused''), Message 2 Verified]
   \<and> created (run
       (start [\<lparr>email = ''a@x.com'', password = ''p1''\<rparr>, \<lparr>email = ''b@x.com'', password = ''p2''\<rparr>,
               \<lparr>email = ''c@x.com'', password = ''p3''\<rparr>] 2)
       [Message 1 Verified, Message 0 (Failed ''refused''), Message 2 Verified])
     = [\<lparr>email = ''c@x.com'', password = ''p3''\<rparr>, \<lparr>email = ''b@x.com'', password = ''p2''\<rparr>,
        \<lparr>email = ''a@x.com'', password = ''p1''\<rparr>]"
proof -
  let ?A = "[\<lparr>email = ''a@x.com'', password = ''p1''\<rparr>, \<lparr>email = ''b@x.com'', password = ''p2''\<rparr>,
             \<lparr>email = ''c@x.com'', password = ''p3''\<rparr>]"
  let ?evs = "[Message 1 Verified, Message 0 (Failed ''refused''), Message 2 Verified]"
  have h1: "?A \<noteq> []" by simp
  have h2: "feasible (start ?A 2) ?evs" by code_simp
  have h3: "accounts (run (start ?A 2) ?evs) = []" by code_simp
  from dispatch_reverse_order [OF h1 h2] h3
  have "created (run (start ?A 2) ?evs) = rev ?A" by simp
  then show ?thesis using h2 by simp
qed

section \<open>The upload route: validation of an uploaded list\<close>

lemma collect_invalid_eq:
  "collect_invalid acc idx lines =
     acc @ map (\<lambda>i. idx + i + 1)
             (filter (\<lambda>i. \<not> js_includes (lines ! i) ''@gmail.com:'') [0..<length lines])"
proof (induction lines arbitrary: acc idx)
  case Nil
  show ?case by simp
next
  case (Cons line rest)
  have u: "[0..<length (line # rest)] = 0 # map Suc [0..<length rest]"
    by (simp add: upt_conv_Cons map_Suc_upt del: upt_Suc)
  show ?case
    by (simp only: collect_invalid.simps Cons.IH u) (simp add: filter_map comp_def)
qed

lemma collect_invalid_numbers:
  "collect_invalid [] 0 lines =
     map Suc (filter (\<lambda>i. \<not> js_includes (lines ! i) ''@gmail.com:'') [0..<length lines])"
  by (simp add: collect_invalid_eq)

lemma collect_invalid_empty_iff:
  "collect_invalid [] 0 lines = [] \<longleftrightarrow> (\<forall>line \<in> set lines. js_includes line ''@gmail.com:'')"
proof -
  have "(\<forall>i \<in> {0..<length lines}. js_includes (lines ! i) ''@gmail.com:'')
          \<longleftrightarrow> (\<forall>line \<in> set lines. js_includes line ''@gmail.com:'')"
    by (metis atLeastLessThan_iff in_set_conv_nth zero_le)
  then show ?thesis
    by (simp add: collect_invalid_numbers filter_empty_conv)
qed

text \<open>
  Claim C8: for every uploaded file that can be read, the route answers with the
  invalid-format response, carrying the 1-based numbers of all lines that do not
  contain \<open>@gmail.com:\<close>, in ascending order, and removes the file, if and only if some
  line is invalid; otherwise the file stays stored and the response carries its
  stored file name.
\<close>

theorem upload_rejects_iff_invalid:
  assumes "files (path f) = Some data"
  shows "upload files (Some f) =
           (if \<exists>line \<in> set (js_split newline data). \<not> js_includes line ''@gmail.com:''
            then (InvalidFormat
                    (map Suc (filter (\<lambda>i. \<not> js_includes (js_split newline data ! i) ''@gmail.com:'')
                       [0..<length (js_split newline data)])),
                  files(path f := None), [])
            else (Uploaded (filename f), files, [filename f]))
         \<and> status_code (fst (upload files (Some f))) =
           (if \<exists>line \<in> set (js_split newline data). \<not> js_includes line ''@gmail.com:''
            then 400 else 200)"
  using assms collect_invalid_empty_iff [of "js_split newline data"]
  by (simp add: upload_def Let_def collect_invalid_numbers [symmetric])

theorem upload_rejects_iff_invalid_witness:
  "[''uploads/1-list.txt'' \<mapsto> ''a@gmail.com:pw1'' @ [newline] @ ''badline'' @ [newline] @ ''b@gmail.com:pw2'']
      ''uploads/1-list.txt''
     = Some (''a@gmail.com:pw1'' @ [newline] @ ''badline'' @ [newline] @ ''b@gmail.com:pw2'')
   \<and> fst (upload
        [''uploads/1-list.txt'' \<mapsto> ''a@gmail.com:pw1'' @ [newline] @ ''badline'' @ [newline] @ ''b@gmail.com:pw2'']
        (Some \<lparr>path = ''uploads/1-list.txt'', filename = ''1-list.txt''\<rparr>))
     = InvalidFormat [2]
   \<and> fst (upload
        [''uploads/2-list.txt'' \<mapsto> ''a@gmail.com:pw1'' @ [newline] @ ''b@gmail.com:pw2'']
        (Some \<lparr>path = ''uploads/2-list.txt'', filename = ''2-list.txt''\<rparr>))
     = Uploaded ''2-list.txt''"
proof -
  let ?d1 = "''a@gmail.com:pw1'' @ [newline] @ ''badline'' @ [newline] @ ''b@gmail.com:pw2''"
  let ?d2 = "''a@gmail.com:pw1'' @ [newline] @ ''b@gmail.com:pw2''"
  let ?f1 = "\<lparr>path = ''uploads/1-list.txt'', filename = ''1-list.txt''\<rparr>"
  let ?f2 = "\<lparr>path = ''uploads/2-list.txt'', filename = ''2-list.txt''\<rparr>"
  have h1: "[''uploads/1-list.txt'' \<mapsto> ?d1] (path ?f1) = Some ?d1" by simp
  have h2: "[''uploads/2-list.txt'' \<mapsto> ?d2] (path ?f2) = Some ?d2" by simp
  have e1: "\<exists>line \<in> set (js_split newline ?d1). \<not> js_includes line ''@gmail.com:''"
    by code_simp
  have b1: "map Suc (filter (\<lambda>i. \<not> js_includes (js_split newline ?d1 ! i) ''@gmail.com:'')
              [0..<length (js_split newline ?d1)]) = [2]"
    by code_simp
  have e2: "\<not> (\<exists>line \<in> set (js_split newline ?d2). \<not> js_includes line ''@gmail.com:'')"
    by code_simp
  have r1: "fst (upload [''uploads/1-list.txt'' \<mapsto> ?d1] (Some ?f1)) = InvalidFormat [2]"
    using upload_rejects_iff_invalid [of "[''uploads/1-list.txt'' \<mapsto> ?d1]" ?f1 ?d1, OF h1] e1 b1
    by simp
  have r2: "fst (upload [''uploads/2-list.txt'' \<mapsto> ?d2] (Some ?f2)) = Uploaded ''2-list.txt''"
    using upload_rejects_iff_invalid [of "[''uploads/2-list.txt'' \<mapsto> ?d2]" ?f2 ?d2, OF h2] e2
    by simp
  show ?thesis using r1 r2 by simp
qed

text \<open>
  Claim C10: for every uploaded file that can be read, an empty line is counted as
  invalid: the file is rejected and the number of the empty line is among the
  offending line numbers. In particular a content that ends with a newline is
  rejected with the number of its last (empty) line, also when every credential line
  is well-formed.
\<close>

theorem upload_empty_line_rejected:
  assumes "files (path f) = Some data"
  shows "(\<forall>i. i < length (js_split newline data) \<and> js_split newline data ! i = [] \<longrightarrow>
            (\<exists>bad. fst (upload files (Some f)) = InvalidFormat bad \<and> Suc i \<in> set bad)) \<and>
         (\<forall>body. data = body @ [newline] \<longrightarrow>
            (\<exists>bad. fst (upload files (Some f)) = InvalidFormat bad
                \<and> length (js_split newline data) \<in> set bad))"
proof -
  let ?lines = "js_split newline data"
  let ?bad = "collect_invalid [] 0 ?lines"
  have mem: "Suc i \<in> set ?bad" if "i < length ?lines" "?lines ! i = []" for i
    using that by (simp add: collect_invalid_numbers)
  have rej: "fst (upload files (Some f)) = InvalidFormat ?bad" if "?bad \<noteq> []"
    using that assms by (simp add: upload_def Let_def)
  have one: "\<exists>bad. fst (upload files (Some f)) = InvalidFormat bad \<and> Suc i \<in> set bad"
    if "i < length ?lines" "?lines ! i = []" for i
  proof -
    have "Suc i \<in> set ?bad" using that by (rule mem)
    moreover from this have "?bad \<noteq> []" by auto
    ultimately show ?thesis using rej by blast
  qed
  have two: "\<exists>bad. fst (upload files (Some f)) = InvalidFormat bad \<and> length ?lines \<in> set bad"
    if "data = body @ [newline]" for body
  proof -
    have l: "?lines = js_split newline body @ [[]]"
      using that by (simp add: js_split_snoc_sep)
    then have "length ?lines - 1 < length ?lines" "?lines ! (length ?lines - 1) = []"
      by simp_all
    from one [OF this] show ?thesis using l by simp
  qed
  show ?thesis using one two by blast
qed

theorem upload_empty_line_rejected_witness:
  "[''uploads/3-list.txt'' \<mapsto> ''a@gmail.com:pw1'' @ [newline]] ''uploads/3-list.txt''
     = Some (''a@gmail.com:pw1'' @ [newline])
   \<and> js_includes ''a@gmail.com:pw1'' ''@gmail.com:''
   \<and> (\<exists>bad. fst (upload [''uploads/3-list.txt'' \<mapsto> ''a@gmail.com:pw1'' @ [newline]]
                   (Some \<lparr>path = ''uploads/3-list.txt'', filename = ''3-list.txt''\<rparr>))
               = InvalidFormat bad \<and> 2 \<in> set bad)"
proof -
  let ?d = "''a@gmail.com:pw1'' @ [newline]"
  let ?f = "\<lparr>path = ''uploads/3-list.txt'', filename = ''3-list.txt''\<rparr>"
  have h: "[''uploads/3-list.txt'' \<mapsto> ?d] (path ?f) = Some ?d" by simp
  have l: "length (js_split newline ?d) = 2" by code_simp
  have v: "js_includes ''a@gmail.com:pw1'' ''@gmail.com:''" by code_simp
  from upload_empty_line_rejected [of "[''uploads/3-list.txt'' \<mapsto> ?d]" ?f ?d, OF h]
  have "\<exists>bad. fst (upload [''uploads/3-list.txt'' \<mapsto> ?d] (Some ?f)) = InvalidFormat bad
           \<and> length (js_split newline ?d) \<in> set bad"
    by blast
  then show ?thesis using l v by simp
qed

end
